theory Spec2Isabelle
  imports Main "HOL-Library.Sublist"
begin

section \<open>Strings and character classes\<close>

text \<open>
  A JavaScript string is modelled as a \<^typ>\<open>string\<close>, one \<^typ>\<open>char\<close> per UTF-16 code
  unit, read as the code points U+0000 to U+00FF (Latin-1). On this range \<open>length\<close>
  is JavaScript's \<open>.length\<close>, and the classes below are the ones the engine uses:
  \<open>\d\<close>, \<open>\s\<close> (also the set stripped by \<open>trim\<close>), \<open>[\p{L}\p{N}]\<close>, and the simple case
  folding applied by the flags \<open>iu\<close>.
\<close>

definition code :: "char \<Rightarrow> nat" where
  "code c = of_char c"

abbreviation BSL :: char where "BSL \<equiv> CHR 0x5C"
abbreviation LF :: char where "LF \<equiv> CHR 0x0A"
abbreviation CR :: char where "CR \<equiv> CHR 0x0D"
abbreviation SQUOTE :: char where "SQUOTE \<equiv> CHR 0x27"
abbreviation DQUOTE :: char where "DQUOTE \<equiv> CHR 0x22"

definition isDigitCh :: "char \<Rightarrow> bool" where
  "isDigitCh c = (48 \<le> code c \<and> code c \<le> 57)"

definition isSpaceCh :: "char \<Rightarrow> bool" where
  "isSpaceCh c = (let n = code c in (9 \<le> n \<and> n \<le> 13) \<or> n = 32 \<or> n = 160)"

definition isLetterCh :: "char \<Rightarrow> bool" where
  "isLetterCh c = (let n = code c in
     (65 \<le> n \<and> n \<le> 90) \<or> (97 \<le> n \<and> n \<le> 122) \<or> n = 170 \<or> n = 181 \<or> n = 186 \<or>
     (192 \<le> n \<and> n \<le> 214) \<or> (216 \<le> n \<and> n \<le> 246) \<or> 248 \<le> n)"

definition isNumberCh :: "char \<Rightarrow> bool" where
  "isNumberCh c = (let n = code c in
     (48 \<le> n \<and> n \<le> 57) \<or> n = 178 \<or> n = 179 \<or> n = 185 \<or> (188 \<le> n \<and> n \<le> 190))"

text \<open>\<open>WORD_CH\<close> is \<open>[\p{L}\p{N}]\<close>; \<open>NOT_WORD_CH\<close> is its complement.\<close>

definition isWordCh :: "char \<Rightarrow> bool" where
  "isWordCh c = (isLetterCh c \<or> isNumberCh c)"

definition canonicalize :: "char \<Rightarrow> char" where
  "canonicalize c = (let n = code c in
     if (65 \<le> n \<and> n \<le> 90) \<or> (192 \<le> n \<and> n \<le> 222 \<and> n \<noteq> 215) then char_of (n + 32) else c)"

definition trimStart :: "string \<Rightarrow> string" where
  "trimStart s = dropWhile isSpaceCh s"

definition trimEnd :: "string \<Rightarrow> string" where
  "trimEnd s = rev (dropWhile isSpaceCh (rev s))"

definition trim :: "string \<Rightarrow> string" where
  "trim s = trimEnd (trimStart s)"

text \<open>\<open>s.slice(a, b)\<close> for indices \<open>0 \<le> a\<close>, \<open>0 \<le> b\<close>: empty when \<open>b \<le> a\<close>, clipped at the end.\<close>

definition slice :: "string \<Rightarrow> nat \<Rightarrow> nat \<Rightarrow> string" where
  "slice s a b = take (b - a) (drop a s)"

text \<open>\<open>s.padStart(n, "0")\<close>.\<close>

definition padStart :: "nat \<Rightarrow> string \<Rightarrow> string" where
  "padStart n s = replicate (n - length s) CHR ''0'' @ s"

text \<open>\<open>s.split(sep)\<close> for a one-character separator; the empty string gives one empty piece.\<close>

fun split :: "char \<Rightarrow> string \<Rightarrow> string list" where
  "split sep [] = [[]]"
| "split sep (c # cs) =
     (if c = sep then [] # split sep cs
      else (let r = split sep cs in (c # hd r) # tl r))"

text \<open>\<open>xs.join(sep)\<close>.\<close>

fun join :: "'a list \<Rightarrow> 'a list list \<Rightarrow> 'a list" where
  "join sep [] = []"
| "join sep [x] = x"
| "join sep (x # y # ys) = x @ sep @ join sep (y # ys)"

section \<open>normalizeHour\<close>

text \<open>
  The match of \<open>/^(\d+):(\d{2}):(\d{2}\.\d{3})$/\<close>: the greedy \<open>\d+\<close> takes every leading
  digit (a shorter hour would have to be followed by a digit where \<open>:\<close> is required), the
  rest has to be the ten characters \<open>:dd:dd.ddd\<close> up to the end of the string. The result
  is the three groups.
\<close>

definition matchTimestamp :: "string \<Rightarrow> (string \<times> string \<times> string) option" where
  "matchTimestamp ts =
     (let h = takeWhile isDigitCh ts; r = dropWhile isDigitCh ts in
      if h \<noteq> [] \<and> length r = 10 \<and>
         r ! 0 = CHR '':'' \<and> list_all isDigitCh (slice r 1 3) \<and>
         r ! 3 = CHR '':'' \<and> list_all isDigitCh (slice r 4 6) \<and>
         r ! 6 = CHR ''.'' \<and> list_all isDigitCh (slice r 7 10)
      then Some (h, slice r 1 3, slice r 4 10)
      else None)"

definition normalizeHour :: "string \<Rightarrow> string" where
  "normalizeHour ts =
     (case matchTimestamp ts of
        None \<Rightarrow> ts
      | Some (h, m, s) \<Rightarrow> padStart 2 h @ '':'' @ m @ '':'' @ s)"

section \<open>escapeHtml and escapeRegex\<close>

text \<open>\<open>s.replace(/[&<>"']/g, c => table[c])\<close>: each of the five characters is replaced.\<close>

definition escapeHtmlCh :: "char \<Rightarrow> string" where
  "escapeHtmlCh c =
     (if c = CHR ''&'' then ''&amp;''
      else if c = CHR ''<'' then ''&lt;''
      else if c = CHR ''>'' then ''&gt;''
      else if c = DQUOTE then ''&quot;''
      else if c = SQUOTE then ''&#039;''
      else [c])"

definition escapeHtml :: "string \<Rightarrow> string" where
  "escapeHtml s = concat (map escapeHtmlCh s)"

text \<open>The class \<open>[.*+?^${}()|[\]\\]\<close>: the fourteen syntax characters of a pattern.\<close>

definition isSyntaxCh :: "char \<Rightarrow> bool" where
  "isSyntaxCh c = (c \<in> set ''.*+?^${}()|[]'' \<or> c = BSL)"

text \<open>\<open>s.replace(/[.*+?^${}()|[\]\\]/g, "\\$&")\<close>: a backslash before each of them.\<close>

definition escapeRegex :: "string \<Rightarrow> string" where
  "escapeRegex s = concat (map (\<lambda>c. if isSyntaxCh c then [BSL, c] else [c]) s)"

section \<open>The phrase list and the italics pattern\<close>

text \<open>\<open>italicsText.split(/\r?\n/)\<close>: a line feed, with the carriage return before it if any.\<close>

fun splitLines :: "string \<Rightarrow> string list" where
  "splitLines [] = [[]]"
| "splitLines (c # cs) =
     (if c = LF then [] # splitLines cs
      else if c = CR \<and> cs \<noteq> [] \<and> hd cs = LF then [] # splitLines (tl cs)
      else (let r = splitLines cs in (c # hd r) # tl r))"

definition buildItalicsList :: "string \<Rightarrow> string list" where
  "buildItalicsList italicsText = filter (\<lambda>s. s \<noteq> []) (map trim (splitLines italicsText))"

text \<open>\<open>s.replace(/\s+/g, "\\s+")\<close>: every maximal run of whitespace becomes the three
  characters backslash, \<open>s\<close>, \<open>+\<close>.\<close>

function whitespaceToPattern :: "string \<Rightarrow> string" where
  "whitespaceToPattern [] = []"
| "whitespaceToPattern (c # cs) =
     (if isSpaceCh c then [BSL, CHR ''s'', CHR ''+''] @ whitespaceToPattern (dropWhile isSpaceCh cs)
      else c # whitespaceToPattern cs)"
  by pat_completeness auto
termination
  by (relation "measure length") (auto intro: le_imp_less_Suc length_dropWhile_le)

text \<open>\<open>s.replace(/lit/g, rep)\<close> for a pattern that matches exactly the text \<open>lit\<close>.\<close>

function replaceAll :: "string \<Rightarrow> string \<Rightarrow> string \<Rightarrow> string" where
  "replaceAll lit rep [] = []"
| "replaceAll lit rep (c # cs) =
     (if lit \<noteq> [] \<and> prefix lit (c # cs)
      then rep @ replaceAll lit rep (drop (length lit) (c # cs))
      else c # replaceAll lit rep cs)"
  by pat_completeness auto
termination
  by (relation "measure (\<lambda>(lit, rep, s). length s)") auto

text \<open>
  The source of one alternative, as \<open>buildItalicsRegex\<close> computes it: trim, whitespace runs
  to \<open>\s+\<close>, \<open>escapeRegex\<close>, and then \<open>.replace(/\\s\+/g, String.raw`\s+`)\<close>, which looks
  for the three characters backslash, \<open>s\<close>, \<open>+\<close> and puts the same three characters back.
\<close>

definition phraseSource :: "string \<Rightarrow> string" where
  "phraseSource p =
     (let norm = whitespaceToPattern (trim p) in
      replaceAll [BSL, CHR ''s'', CHR ''+''] [BSL, CHR ''s'', CHR ''+''] (escapeRegex norm))"

subsection \<open>Compiling the alternation\<close>

text \<open>
  \<open>new RegExp(pattern, "giu")\<close> parses the pattern; a pattern that does not parse raises a
  SyntaxError. The frame \<open>(^|[^\p{L}\p{N}])( ... )(?=$|[^\p{L}\p{N}])\<close> is fixed by the
  template, so the model parses what stands between the parentheses of the second group:
  alternatives separated by \<open>|\<close>, each a sequence of atoms (a character, an escaped
  syntax character, or the class \<open>\s\<close>), an atom optionally followed by \<open>+\<close>. Anything
  else (an unescaped syntax character, another escape, a dangling backslash or \<open>+\<close>) is
  outside this fragment and is reported as an error.
\<close>

datatype error = SyntaxError

datatype token = TChar char | TSpace | TPlus | TBar

fun tokenize :: "string \<Rightarrow> token list option" where
  "tokenize [] = Some []"
| "tokenize (c # cs) =
     (if c = BSL then
        (case cs of
           [] \<Rightarrow> None
         | d # ds \<Rightarrow>
             if d = CHR ''s'' then map_option (Cons TSpace) (tokenize ds)
             else if isSyntaxCh d then map_option (Cons (TChar d)) (tokenize ds)
             else None)
      else if c = CHR ''+'' then map_option (Cons TPlus) (tokenize cs)
      else if c = CHR ''|'' then map_option (Cons TBar) (tokenize cs)
      else if isSyntaxCh c then None
      else map_option (Cons (TChar c)) (tokenize cs))"

datatype ratom = RChar char | RSpace

datatype rterm = Once ratom | Plus ratom

type_synonym italicsRe = "rterm list list"

fun parseTerms :: "token list \<Rightarrow> rterm list option" where
  "parseTerms [] = Some []"
| "parseTerms (TChar c # TPlus # ts) = map_option (Cons (Plus (RChar c))) (parseTerms ts)"
| "parseTerms (TSpace # TPlus # ts) = map_option (Cons (Plus RSpace)) (parseTerms ts)"
| "parseTerms (TChar c # ts) = map_option (Cons (Once (RChar c))) (parseTerms ts)"
| "parseTerms (TSpace # ts) = map_option (Cons (Once RSpace)) (parseTerms ts)"
| "parseTerms (TPlus # ts) = None"
| "parseTerms (TBar # ts) = None"

fun splitBars :: "token list \<Rightarrow> token list list" where
  "splitBars [] = [[]]"
| "splitBars (t # ts) =
     (if t = TBar then [] # splitBars ts
      else (let r = splitBars ts in (t # hd r) # tl r))"

definition compileAlternation :: "string \<Rightarrow> italicsRe option" where
  "compileAlternation src =
     (case tokenize src of
        None \<Rightarrow> None
      | Some ts \<Rightarrow> those (map parseTerms (splitBars ts)))"

text \<open>
  \<open>buildItalicsRegex\<close>: \<open>null\<close> for an empty list; otherwise the phrases sorted by
  descending \<open>.length\<close> (the sort is stable), mapped to their sources, joined with \<open>|\<close>
  and compiled.
\<close>

definition buildItalicsRegex :: "string list \<Rightarrow> error + italicsRe option" where
  "buildItalicsRegex phrases =
     (if phrases = [] then Inr None
      else
        (let sorted = sort_key (\<lambda>p. - int (length p)) phrases;
             alts = map phraseSource sorted
         in case compileAlternation (join ''|'' alts) of
              None \<Rightarrow> Inl SyntaxError
            | Some re \<Rightarrow> Inr (Some re)))"

subsection \<open>Matching\<close>

text \<open>With the flags \<open>iu\<close> a pattern character matches a character with the same case folding.\<close>

fun atomMatches :: "ratom \<Rightarrow> char \<Rightarrow> bool" where
  "atomMatches (RChar x) c = (canonicalize x = canonicalize c)"
| "atomMatches RSpace c = isSpaceCh c"

text \<open>
  The lengths an alternative can consume at the head of \<open>s\<close>, in the order backtracking
  tries them: \<open>+\<close> is greedy, so the longest run first.
\<close>

fun matchTerms :: "rterm list \<Rightarrow> string \<Rightarrow> nat list" where
  "matchTerms [] s = [0]"
| "matchTerms (Once a # ts) [] = []"
| "matchTerms (Once a # ts) (c # cs) =
     (if atomMatches a c then map Suc (matchTerms ts cs) else [])"
| "matchTerms (Plus a # ts) s =
     concat (map (\<lambda>k. map ((+) k) (matchTerms ts (drop k s)))
                 (rev [1..<Suc (length (takeWhile (atomMatches a) s))]))"

text \<open>The lookahead \<open>(?=$|[^\p{L}\p{N}])\<close> on the rest of the line.\<close>

definition lookaheadOk :: "string \<Rightarrow> bool" where
  "lookaheadOk s = (case s of [] \<Rightarrow> True | c # cs \<Rightarrow> \<not> isWordCh c)"

text \<open>The second group and the lookahead at the head of \<open>s\<close>: the first alternative, and
  the first of its lengths, that the lookahead accepts.\<close>

definition matchPhrase :: "italicsRe \<Rightarrow> string \<Rightarrow> nat option" where
  "matchPhrase alts s =
     find (\<lambda>n. lookaheadOk (drop n s)) (concat (map (\<lambda>alt. matchTerms alt s) alts))"

text \<open>
  The whole pattern at position \<open>i\<close>, where \<open>s\<close> is the line from \<open>i\<close> on: the first group
  tries \<open>^\<close> (position 0 only, there is no flag \<open>m\<close>), then one character that is not a
  letter or digit. The result is the length of the first group and of the second.
\<close>

definition matchAt :: "italicsRe \<Rightarrow> nat \<Rightarrow> string \<Rightarrow> (nat \<times> nat) option" where
  "matchAt alts i s =
     (case (if i = 0 then matchPhrase alts s else None) of
        Some n \<Rightarrow> Some (0, n)
      | None \<Rightarrow>
          (case s of
             [] \<Rightarrow> None
           | c # cs \<Rightarrow> if isWordCh c then None else map_option (Pair 1) (matchPhrase alts cs)))"

text \<open>\<open>exec\<close> with \<open>lastIndex = i\<close>: the first position from \<open>i\<close> on, up to the end of the
  line, where the pattern matches; \<open>(index, length of group 1, length of group 2)\<close>.\<close>

function execFrom :: "italicsRe \<Rightarrow> string \<Rightarrow> nat \<Rightarrow> (nat \<times> nat \<times> nat) option" where
  "execFrom alts line i =
     (if length line < i then None
      else (case matchAt alts i (drop i line) of
              Some (b, n) \<Rightarrow> Some (i, b, n)
            | None \<Rightarrow> execFrom alts line (Suc i)))"
  by pat_completeness auto
termination
  by (relation "measure (\<lambda>(alts, line, i). Suc (length line) - i)") auto

declare execFrom.simps [simp del]

text \<open>
  \<open>rawLine.matchAll(italicsRe)\<close>, from \<open>lastIndex\<close> on: each match is searched from the end
  of the one before; after an empty match the index is advanced by one.
\<close>

function matchAll :: "italicsRe \<Rightarrow> string \<Rightarrow> nat \<Rightarrow> (nat \<times> nat \<times> nat) list" where
  "matchAll alts line lastIndex =
     (case execFrom alts line lastIndex of
        None \<Rightarrow> []
      | Some (i, b, n) \<Rightarrow>
          (i, b, n) # matchAll alts line (if b + n = 0 then Suc (i + b + n) else i + b + n))"
  by pat_completeness auto
termination
proof (relation "measure (\<lambda>(alts, line, k). Suc (length line) - k)")
  show "wf (measure (\<lambda>(alts, line, k). Suc (length line) - k))"
    by simp
next
  fix alts :: italicsRe and line :: string and lastIndex i b n :: nat
    and x2 :: "nat \<times> nat \<times> nat" and y :: "nat \<times> nat"
  assume ex: "execFrom alts line lastIndex = Some x2" and x2: "(i, y) = x2" and y: "(b, n) = y"
  have bounds: "execFrom alts line k = Some (j, r) \<Longrightarrow> k \<le> j \<and> j \<le> length line" for k j r
  proof (induction alts line k rule: execFrom.induct)
    case (1 alts line k)
    show ?case
    proof (cases "matchAt alts k (drop k line)")
      case None
      with "1.prems" have le: "\<not> length line < k" and rec: "execFrom alts line (Suc k) = Some (j, r)"
        using execFrom.simps [of alts line k] by (auto split: if_splits)
      from "1.IH" [OF le None rec] show ?thesis by simp
    next
      case (Some p)
      with "1.prems" show ?thesis
        using execFrom.simps [of alts line k] by (cases p) (auto split: if_splits)
    qed
  qed
  from ex x2 have "lastIndex \<le> i \<and> i \<le> length line"
    using bounds [of lastIndex i y] by simp
  then show "((alts, line, if b + n = 0 then Suc (i + b + n) else i + b + n), alts, line, lastIndex)
      \<in> measure (\<lambda>(alts, line, k). Suc (length line) - k)"
    by auto
qed

declare matchAll.simps [simp del]

section \<open>italicizeLineWholeWords\<close>

text \<open>The body of the loop over the matches, with the variables \<open>out\<close> and \<open>last\<close> (here \<open>last'\<close>), and
  the remainder appended after the last match.\<close>

fun italicizeLoop :: "string \<Rightarrow> (nat \<times> nat \<times> nat) list \<Rightarrow> string \<Rightarrow> nat \<Rightarrow> string" where
  "italicizeLoop rawLine [] out last' = out @ escapeHtml (drop last' rawLine)"
| "italicizeLoop rawLine ((startIdx, leftBoundary, phrase) # ms) out last' =
     (let phraseStart = startIdx + leftBoundary;
          phraseEnd = phraseStart + phrase
      in italicizeLoop rawLine ms
           (out @ escapeHtml (slice rawLine last' phraseStart)
                @ ''<i>'' @ escapeHtml (slice rawLine phraseStart phraseEnd) @ ''</i>'')
           phraseEnd)"

definition italicizeLineWholeWords :: "string \<Rightarrow> italicsRe option \<Rightarrow> string" where
  "italicizeLineWholeWords rawLine italicsRe =
     (case italicsRe of
        None \<Rightarrow> escapeHtml rawLine
      | Some alts \<Rightarrow> italicizeLoop rawLine (matchAll alts rawLine 0) [] 0)"

section \<open>sbvToVtt\<close>

text \<open>
  The time line pattern \<open>/^(.+?),(.+?)$/\<close>. Both groups are lazy: the first one grows a
  character at a time from one character on, and stops at the first comma after which
  the second group can reach the end of the string; the second one needs one character
  at least. Without the flag \<open>s\<close> the dot matches every character but the four line
  terminators: LF, CR, U+2028 and U+2029. The two groups are written over any alphabet,
  with the class of the dot and the comma as arguments, so that what is proved of them
  holds whatever characters the dot refuses.
\<close>

fun timeGroup2 :: "('a \<Rightarrow> bool) \<Rightarrow> 'a list \<Rightarrow> 'a list \<Rightarrow> 'a list option" where
  "timeGroup2 dot acc [] = (if acc = [] then None else Some acc)"
| "timeGroup2 dot acc (c # cs) = (if dot c then timeGroup2 dot (acc @ [c]) cs else None)"

fun timeGroup1 :: "('a \<Rightarrow> bool) \<Rightarrow> 'a \<Rightarrow> 'a list \<Rightarrow> 'a list \<Rightarrow> ('a list \<times> 'a list) option" where
  "timeGroup1 dot comma acc [] = None"
| "timeGroup1 dot comma acc (c # cs) =
     (case (if acc \<noteq> [] \<and> c = comma then timeGroup2 dot [] cs else None) of
        Some g2 \<Rightarrow> Some (acc, g2)
      | None \<Rightarrow> if dot c then timeGroup1 dot comma (acc @ [c]) cs else None)"

text \<open>
  The class of the dot on the characters of the model, U+0000 to U+00FF: all but LF and
  CR. The other two line terminators, U+2028 and U+2029, are beyond this range; a line
  of a document can hold them, since only \<open>\n\<close> splits and \<open>trim\<close> strips the ends only.
\<close>

definition isDotCh :: "char \<Rightarrow> bool" where
  "isDotCh c = (c \<noteq> LF \<and> c \<noteq> CR)"

definition matchTimeLine :: "string \<Rightarrow> (string \<times> string) option" where
  "matchTimeLine timeLine = timeGroup1 isDotCh CHR '','' [] timeLine"

text \<open>\<open>.replace(/\r\n/g, "\n")\<close> and \<open>.replace(/\r/g, "\n")\<close>.\<close>

definition normalizeNewlines :: "string \<Rightarrow> string" where
  "normalizeNewlines s = replaceAll [CR] [LF] (replaceAll [CR, LF] [LF] s)"

definition isBlank :: "string \<Rightarrow> bool" where
  "isBlank l = (trim l = [])"

text \<open>
  The main loop. The first argument is the matching rule, the second the lines from
  index \<open>i\<close> on, the third the variable \<open>vtt\<close>.
\<close>

function sbvLoop :: "italicsRe option \<Rightarrow> string list \<Rightarrow> string \<Rightarrow> string" where
  "sbvLoop italicsRe [] vtt = vtt"
| "sbvLoop italicsRe (l # ls) vtt =
     (let timeLine = trim l in
      if timeLine = [] then sbvLoop italicsRe ls vtt
      else
        (case matchTimeLine timeLine of
           None \<Rightarrow> sbvLoop italicsRe ls vtt
         | Some (tm1, tm2) \<Rightarrow>
             (let start = normalizeHour (trim tm1);
                  end' = normalizeHour (trim tm2);
                  cueLines = takeWhile (\<lambda>x. \<not> isBlank x) ls;
                  rest = dropWhile isBlank (dropWhile (\<lambda>x. \<not> isBlank x) ls);
                  processed = join [LF] (map (\<lambda>x. italicizeLineWholeWords x italicsRe) cueLines)
              in sbvLoop italicsRe rest
                   (vtt @ start @ '' --> '' @ end' @ [LF] @ processed @ [LF, LF]))))"
  by pat_completeness auto
termination
proof (relation "measure (\<lambda>(re, ls, vtt). length ls)")
  show "wf (measure (\<lambda>(re, ls, vtt). length ls))"
    by simp
next
  fix italicsRe :: "italicsRe option" and l :: string and ls :: "string list"
    and vtt :: string and rest :: "string list"
  assume "rest = dropWhile isBlank (dropWhile (\<lambda>x. \<not> isBlank x) ls)"
  then have "length rest \<le> length ls"
    using length_dropWhile_le [of isBlank "dropWhile (\<lambda>x. \<not> isBlank x) ls"]
      length_dropWhile_le [of "\<lambda>x. \<not> isBlank x" ls]
    by simp
  then show "((italicsRe, rest, vtt @ st @ '' --> '' @ en @ [LF] @ pr @ [LF, LF]),
       italicsRe, l # ls, vtt) \<in> measure (\<lambda>(re, ls, vtt). length ls)" for st en pr
    by simp
qed auto

definition sbvToVtt :: "string \<Rightarrow> italicsRe option \<Rightarrow> string" where
  "sbvToVtt sbvText italicsRe =
     (let lines = split LF (normalizeNewlines sbvText);
          vtt = sbvLoop italicsRe lines (''WEBVTT'' @ [LF, LF])
      in trimEnd vtt @ [LF])"

text \<open>The core of \<open>onRequest\<close>: the phrase list, the pattern, the conversion. A pattern
  that does not compile is the exception \<open>new RegExp\<close> raises.\<close>

definition convert :: "string \<Rightarrow> string \<Rightarrow> error + string" where
  "convert sbvText italicsText =
     (case buildItalicsRegex (buildItalicsList italicsText) of
        Inl e \<Rightarrow> Inl e
      | Inr italicsRe \<Rightarrow> Inr (sbvToVtt sbvText italicsRe))"

section \<open>Notions used to state the properties\<close>

text \<open>
  The shape of a timestamp as the specification gives it: one or more hour digits, two
  minute digits, two second digits, three millisecond digits.
\<close>

definition timestampShape_spec :: "string \<Rightarrow> string \<Rightarrow> string \<Rightarrow> string \<Rightarrow> bool" where
  "timestampShape_spec h m s ms =
     (h \<noteq> [] \<and> list_all isDigitCh h \<and> length m = 2 \<and> list_all isDigitCh m \<and>
      length s = 2 \<and> list_all isDigitCh s \<and> length ms = 3 \<and> list_all isDigitCh ms)"

text \<open>Reading an output line back: every \<open><i>\<close> and \<open></i>\<close> taken out, left to right.\<close>

function removeItalicsTags_spec :: "string \<Rightarrow> string" where
  "removeItalicsTags_spec [] = []"
| "removeItalicsTags_spec (c # cs) =
     (if prefix ''<i>'' (c # cs) then removeItalicsTags_spec (drop 2 cs)
      else if prefix ''</i>'' (c # cs) then removeItalicsTags_spec (drop 3 cs)
      else c # removeItalicsTags_spec cs)"
  by pat_completeness auto
termination
  by (relation "measure length") auto

text \<open>The five entities decoded in one pass from the left.\<close>

function unescapeHtml_spec :: "string \<Rightarrow> string" where
  "unescapeHtml_spec [] = []"
| "unescapeHtml_spec (c # cs) =
     (if prefix ''&amp;'' (c # cs) then CHR ''&'' # unescapeHtml_spec (drop 4 cs)
      else if prefix ''&lt;'' (c # cs) then CHR ''<'' # unescapeHtml_spec (drop 3 cs)
      else if prefix ''&gt;'' (c # cs) then CHR ''>'' # unescapeHtml_spec (drop 3 cs)
      else if prefix ''&quot;'' (c # cs) then DQUOTE # unescapeHtml_spec (drop 5 cs)
      else if prefix ''&#039;'' (c # cs) then SQUOTE # unescapeHtml_spec (drop 5 cs)
      else c # unescapeHtml_spec cs)"
  by pat_completeness auto
termination
  by (relation "measure length") auto

section \<open>The timestamp normalizer\<close>

lemma colon_not_digit: "\<not> isDigitCh CHR '':''"
  by (simp add: isDigitCh_def code_def)

lemma takeWhile_digits_colon:
  "list_all isDigitCh h \<Longrightarrow> takeWhile isDigitCh (h @ CHR '':'' # r) = h"
  by (induction h) (simp_all add: colon_not_digit)

lemma dropWhile_digits_colon:
  "list_all isDigitCh h \<Longrightarrow> dropWhile isDigitCh (h @ CHR '':'' # r) = CHR '':'' # r"
  by (induction h) (simp_all add: colon_not_digit)

lemma length2_cases: "length m = 2 \<Longrightarrow> \<exists>a b. m = [a, b]"
  by (auto simp: numeral_eq_Suc length_Suc_conv)

lemma length3_cases: "length m = 3 \<Longrightarrow> \<exists>a b c. m = [a, b, c]"
  by (auto simp: numeral_eq_Suc length_Suc_conv)

lemma length10_cases:
  "length (r :: string) = 10 \<Longrightarrow> \<exists>a b c d e f g h i j. r = [a, b, c, d, e, f, g, h, i, j]"
  by (auto simp: numeral_eq_Suc length_Suc_conv)

lemma matchTimestamp_shape:
  assumes "timestampShape_spec h m s ms"
  shows "matchTimestamp (h @ '':'' @ m @ '':'' @ s @ ''.'' @ ms) = Some (h, m, s @ ''.'' @ ms)"
proof -
  from assms obtain m1 m2 where m: "m = [m1, m2]"
    using length2_cases [of m] by (auto simp: timestampShape_spec_def)
  from assms obtain s1 s2 where s: "s = [s1, s2]"
    using length2_cases [of s] by (auto simp: timestampShape_spec_def)
  from assms obtain x1 x2 x3 where ms: "ms = [x1, x2, x3]"
    using length3_cases [of ms] by (auto simp: timestampShape_spec_def)
  from assms have h: "h \<noteq> []" "list_all isDigitCh h"
    by (simp_all add: timestampShape_spec_def)
  from assms m s ms have d: "isDigitCh m1" "isDigitCh m2" "isDigitCh s1" "isDigitCh s2"
      "isDigitCh x1" "isDigitCh x2" "isDigitCh x3"
    by (simp_all add: timestampShape_spec_def)
  show ?thesis
    unfolding matchTimestamp_def m s ms
    using h d by (simp add: takeWhile_digits_colon dropWhile_digits_colon slice_def Let_def)
qed

lemma matchTimestamp_Some_shape:
  assumes "matchTimestamp ts = Some (h, m, sms)"
  shows "\<exists>s ms. timestampShape_spec h m s ms \<and> sms = s @ ''.'' @ ms
           \<and> ts = h @ '':'' @ m @ '':'' @ s @ ''.'' @ ms"
proof -
  define r where "r = dropWhile isDigitCh ts"
  from assms have c: "h = takeWhile isDigitCh ts" "h \<noteq> []" "length r = 10" "r ! 0 = CHR '':''"
     "list_all isDigitCh (slice r 1 3)" "r ! 3 = CHR '':''" "list_all isDigitCh (slice r 4 6)"
     "r ! 6 = CHR ''.''" "list_all isDigitCh (slice r 7 10)" "m = slice r 1 3" "sms = slice r 4 10"
    by (auto simp: matchTimestamp_def Let_def r_def split: if_splits)
  have ts: "ts = h @ r"
    by (simp add: c(1) r_def)
  have hd: "list_all isDigitCh h"
    unfolding c(1) list_all_iff by (auto dest: set_takeWhileD)
  obtain r0 r1 r2 r3 r4 r5 r6 r7 r8 r9 where r: "r = [r0, r1, r2, r3, r4, r5, r6, r7, r8, r9]"
    using length10_cases [OF c(3)] by blast
  have "timestampShape_spec h m (slice r 4 6) (slice r 7 10)"
    using c(2,5,7,9,10) hd unfolding r by (simp add: timestampShape_spec_def slice_def)
  moreover have "sms = slice r 4 6 @ ''.'' @ slice r 7 10"
    using c(8,11) unfolding r by (simp add: slice_def)
  moreover have "ts = h @ '':'' @ m @ '':'' @ slice r 4 6 @ ''.'' @ slice r 7 10"
    using c(4,6,8,10) unfolding ts r by (simp add: slice_def)
  ultimately show ?thesis by blast
qed

text \<open>
  Claim C5, as the code has it. For every input of the timestamp shape, \<open>normalizeHour\<close>
  returns the hour digits left-padded with \<open>0\<close> to width two, followed by the minute,
  second and millisecond fields as given: the hour field has two digits when one or two
  were given, and keeps all its digits when more were given. Every input that is not of
  that shape is returned unchanged.
\<close>

theorem normalizeHour_pads_hour:
  "(timestampShape_spec h m s ms \<longrightarrow>
      normalizeHour (h @ '':'' @ m @ '':'' @ s @ ''.'' @ ms)
        = padStart 2 h @ '':'' @ m @ '':'' @ s @ ''.'' @ ms
      \<and> padStart 2 h = replicate (2 - length h) CHR ''0'' @ h
      \<and> length (padStart 2 h) = max 2 (length h))
   \<and> ((\<nexists>h m s ms. timestampShape_spec h m s ms \<and> ts = h @ '':'' @ m @ '':'' @ s @ ''.'' @ ms)
        \<longrightarrow> normalizeHour ts = ts)"
proof (intro conjI impI)
  assume a: "timestampShape_spec h m s ms"
  show "normalizeHour (h @ '':'' @ m @ '':'' @ s @ ''.'' @ ms)
        = padStart 2 h @ '':'' @ m @ '':'' @ s @ ''.'' @ ms"
    using matchTimestamp_shape [OF a] by (simp add: normalizeHour_def)
  show "padStart 2 h = replicate (2 - length h) CHR ''0'' @ h"
    by (simp add: padStart_def)
  show "length (padStart 2 h) = max 2 (length h)"
    by (auto simp: padStart_def)
next
  assume n: "\<nexists>h m s ms. timestampShape_spec h m s ms \<and> ts = h @ '':'' @ m @ '':'' @ s @ ''.'' @ ms"
  have "matchTimestamp ts = None"
  proof (cases "matchTimestamp ts")
    case (Some p)
    obtain h m sms where "p = (h, m, sms)" by (cases p) auto
    with Some n matchTimestamp_Some_shape [of ts h m sms] show ?thesis by blast
  qed simp
  then show "normalizeHour ts = ts"
    by (simp add: normalizeHour_def)
qed

theorem normalizeHour_pads_hour_witness:
  "normalizeHour ''7:05:09.250'' = ''07:05:09.250''
   \<and> normalizeHour ''12:05:09.250'' = ''12:05:09.250''
   \<and> normalizeHour ''7h05'' = ''7h05''"
proof -
  have a: "timestampShape_spec ''7'' ''05'' ''09'' ''250''" by code_simp
  have b: "timestampShape_spec ''12'' ''05'' ''09'' ''250''" by code_simp
  have c: "\<nexists>h m s ms. timestampShape_spec h m s ms \<and> ''7h05'' = h @ '':'' @ m @ '':'' @ s @ ''.'' @ ms"
  proof
    assume "\<exists>h m s ms. timestampShape_spec h m s ms \<and> ''7h05'' = h @ '':'' @ m @ '':'' @ s @ ''.'' @ ms"
    then obtain h m s ms where eq: "h @ '':'' @ m @ '':'' @ s @ ''.'' @ ms = ''7h05''" by metis
    have "CHR ''.'' \<in> set (h @ '':'' @ m @ '':'' @ s @ ''.'' @ ms)" by simp
    then have "CHR ''.'' \<in> set ''7h05''" unfolding eq .
    then show False by simp
  qed
  have p1: "padStart 2 ''7'' = ''07''" by (simp add: padStart_def)
  have p2: "padStart 2 ''12'' = ''12''" by (simp add: padStart_def)
  show ?thesis
    using normalizeHour_pads_hour [of "''7''" "''05''" "''09''" "''250''" "''7h05''"]
      normalizeHour_pads_hour [of "''12''" "''05''" "''09''" "''250''" "''7h05''"] a b c p1 p2
    by simp
qed

text \<open>
  Claim C5 as stated fails on an hour of three digits: \<open>100:00:00.000\<close> is of the
  timestamp shape, it is returned as it is, and its hour field has three digits.
\<close>

theorem normalizeHour_three_digit_hour:
  "timestampShape_spec ''100'' ''00'' ''00'' ''000'' \<and>
   normalizeHour (''100'' @ '':'' @ ''00'' @ '':'' @ ''00'' @ ''.'' @ ''000'') = ''100:00:00.000'' \<and>
   length (takeWhile (\<lambda>c. c \<noteq> CHR '':'') (normalizeHour ''100:00:00.000'')) = 3"
  by code_simp

section \<open>Scenarios\<close>

text \<open>
  Claim C7. Converting the two-cue document of the specification with the phrase list
  \<open>world\<close> gives the header, the two cue blocks with two-digit hours, \<open>world\<close> in italics,
  and one newline at the end.
\<close>

theorem convert_end_to_end:
  "convert (''0:00:00.000,0:00:02.000'' @ [LF] @ ''Hello world'' @ [LF, LF]
            @ ''0:00:02.000,0:00:04.000'' @ [LF] @ ''Goodbye'') ''world''
   = Inr (''WEBVTT'' @ [LF, LF]
          @ ''00:00:00.000 --> 00:00:02.000'' @ [LF] @ ''Hello <i>world</i>'' @ [LF, LF]
          @ ''00:00:02.000 --> 00:00:04.000'' @ [LF] @ ''Goodbye'' @ [LF])"
  by code_simp

text \<open>
  Claim C1 on the code. The phrases are sorted longest first, but the source of
  \<open>New York City\<close> keeps an escaped backslash, \<open>s\<close> and an escaped \<open>+\<close> where the blanks
  were, so it matches that literal text only: in \<open>I live in New York City\<close> the code
  italicizes \<open>York\<close> alone.
\<close>

theorem longest_phrase_york_only:
  "sort_key (\<lambda>p. - int (length p)) [''York'', ''New York City''] = [''New York City'', ''York'']
   \<and> map phraseSource [''New York City'', ''York'']
       = [''New'' @ [BSL, BSL] @ ''s'' @ [BSL] @ ''+York'' @ [BSL, BSL] @ ''s'' @ [BSL] @ ''+City'',
          ''York'']
   \<and> map_sum id (italicizeLineWholeWords ''I live in New York City'')
        (buildItalicsRegex [''York'', ''New York City''])
       = Inr ''I live in New <i>York</i> City''"
  by code_simp

text \<open>
  Claim C2 on the code. With the phrase \<open>Foo Bar\<close>, a line with one blank, with three
  blanks or with a tab between \<open>Foo\<close> and \<open>Bar\<close> comes out without italics; the text
  that is italicized is \<open>Foo\<close>, a backslash, \<open>s+Bar\<close>.
\<close>

theorem whitespace_phrase_never_matches:
  "map (\<lambda>l. map_sum id (italicizeLineWholeWords l) (buildItalicsRegex [''Foo Bar'']))
     [''Foo Bar'', ''Foo   Bar'', ''Foo'' @ [CHR 0x09] @ ''Bar'', ''Foo'' @ [BSL] @ ''s+Bar'']
   = [Inr ''Foo Bar'', Inr ''Foo   Bar'', Inr (''Foo'' @ [CHR 0x09] @ ''Bar''),
      Inr (''<i>Foo'' @ [BSL] @ ''s+Bar</i>'')]"
  by code_simp

section \<open>The time line and the parser loop\<close>

lemma timeGroup2_eq:
  "timeGroup2 dot acc cs = (if list_all dot cs \<and> acc @ cs \<noteq> [] then Some (acc @ cs) else None)"
  by (induction cs arbitrary: acc) auto

lemma timeGroup1_comma:
  "timeGroup1 dot comma acc s = Some (a, b) \<Longrightarrow> comma \<in> set s"
  by (induction s arbitrary: acc) (auto split: if_splits option.splits)

lemma timeGroup1_dots:
  "timeGroup1 dot comma acc s = Some (a, b) \<Longrightarrow> dot comma \<Longrightarrow> list_all dot s"
proof (induction s arbitrary: acc)
  case Nil
  then show ?case by simp
next
  case (Cons c cs)
  show ?case
  proof (cases "acc \<noteq> [] \<and> c = comma \<and> timeGroup2 dot [] cs \<noteq> None")
    case True
    then have "list_all dot cs" by (auto simp: timeGroup2_eq split: if_splits)
    with True Cons.prems(2) show ?thesis by simp
  next
    case False
    with Cons.prems(1) have "dot c" and "timeGroup1 dot comma (acc @ [c]) cs = Some (a, b)"
      by (auto split: if_splits option.splits)
    with Cons.IH [of "acc @ [c]"] Cons.prems(2) show ?thesis by simp
  qed
qed

lemma timeGroup1_eq:
  assumes "acc \<noteq> []" "list_all dot s"
  shows "timeGroup1 dot comma acc s =
     (if comma \<in> set s \<and> tl (dropWhile (\<lambda>c. c \<noteq> comma) s) \<noteq> []
      then Some (acc @ takeWhile (\<lambda>c. c \<noteq> comma) s, tl (dropWhile (\<lambda>c. c \<noteq> comma) s))
      else None)"
  using assms
proof (induction s arbitrary: acc)
  case Nil
  then show ?case by simp
next
  case (Cons c cs)
  show ?case
  proof (cases "c = comma")
    case True
    show ?thesis
    proof (cases "cs = []")
      case True
      with \<open>c = comma\<close> Cons.prems show ?thesis by (simp add: timeGroup2_eq)
    next
      case False
      with True Cons.prems show ?thesis by (simp add: timeGroup2_eq)
    qed
  next
    case False
    with Cons.prems Cons.IH [of "acc @ [c]"] show ?thesis by simp
  qed
qed

lemma timeGroup1_start:
  assumes "dot comma"
  shows "timeGroup1 dot comma [] t =
     (if t \<noteq> [] \<and> list_all dot t \<and> comma \<in> set (tl t)
         \<and> tl (dropWhile (\<lambda>x. x \<noteq> comma) (tl t)) \<noteq> []
      then Some (hd t # takeWhile (\<lambda>x. x \<noteq> comma) (tl t),
                 tl (dropWhile (\<lambda>x. x \<noteq> comma) (tl t)))
      else None)"
proof (cases "list_all dot t")
  case True
  show ?thesis
  proof (cases t)
    case Nil
    then show ?thesis by simp
  next
    case (Cons c cs)
    with True timeGroup1_eq [of "[c]" dot cs comma] show ?thesis by simp
  qed
next
  case False
  have "timeGroup1 dot comma [] t = None"
  proof (cases "timeGroup1 dot comma [] t")
    case (Some p)
    obtain a b where "p = (a, b)" by (cases p) auto
    with Some timeGroup1_dots [of dot comma "[]" t a b] assms False show ?thesis by simp
  qed simp
  with False show ?thesis by simp
qed

lemma matchTimeLine_no_comma: "CHR '','' \<notin> set s \<Longrightarrow> matchTimeLine s = None"
  using timeGroup1_comma [of isDotCh "CHR '',''" "[]" s]
  by (cases "matchTimeLine s") (auto simp: matchTimeLine_def)

lemma set_trimEnd: "set (trimEnd s) \<subseteq> set s"
  unfolding trimEnd_def using set_dropWhileD [of _ isSpaceCh "rev s"] by auto

lemma set_trim: "set (trim s) \<subseteq> set s"
  unfolding trim_def trimStart_def
  using set_trimEnd [of "dropWhile isSpaceCh s"] set_dropWhileD [of _ isSpaceCh s] by blast

lemma sbvLoop_discard:
  "matchTimeLine (trim l) = None \<Longrightarrow> sbvLoop re (l # ls) vtt = sbvLoop re ls vtt"
  by (simp add: Let_def)

lemma sbvLoop_blank: "isBlank l \<Longrightarrow> sbvLoop re (l # ls) vtt = sbvLoop re ls vtt"
  by (simp add: isBlank_def)

lemma sbvLoop_skip_blanks: "sbvLoop re (dropWhile isBlank ls) vtt = sbvLoop re ls vtt"
  by (induction ls) (simp_all add: sbvLoop_blank del: sbvLoop.simps)

lemma trim_eq_Nil: "trim s = [] \<longleftrightarrow> (\<forall>c\<in>set s. isSpaceCh c)"
proof -
  have "dropWhile isSpaceCh s = [] \<longleftrightarrow> (\<forall>c\<in>set s. isSpaceCh c)"
    by (simp add: dropWhile_eq_Nil_conv)
  moreover have "trim s = [] \<longleftrightarrow> dropWhile isSpaceCh s = []"
  proof
    assume "trim s = []"
    then have a: "\<forall>x\<in>set (dropWhile isSpaceCh s). isSpaceCh x"
      by (simp add: trim_def trimEnd_def trimStart_def dropWhile_eq_Nil_conv)
    show "dropWhile isSpaceCh s = []"
    proof (rule ccontr)
      assume n: "dropWhile isSpaceCh s \<noteq> []"
      then have "\<not> isSpaceCh (hd (dropWhile isSpaceCh s))" by (rule hd_dropWhile)
      with a n show False by (meson hd_in_set)
    qed
  next
    assume d: "dropWhile isSpaceCh s = []"
    show "trim s = []" unfolding trim_def trimEnd_def trimStart_def d by simp
  qed
  ultimately show ?thesis by simp
qed

lemma trimEnd_prefix: "\<exists>r. t = trimEnd t @ r"
proof -
  have "t = rev (rev t)" by simp
  also have "\<dots> = rev (takeWhile isSpaceCh (rev t) @ dropWhile isSpaceCh (rev t))"
    by (simp only: takeWhile_dropWhile_id)
  also have "\<dots> = trimEnd t @ rev (takeWhile isSpaceCh (rev t))"
    unfolding trimEnd_def by (rule rev_append)
  finally show ?thesis ..
qed

lemma trim_first_not_space:
  assumes "trim s = c # cs"
  shows "\<not> isSpaceCh c"
proof -
  define t where "t = dropWhile isSpaceCh s"
  obtain r where r: "t = trimEnd t @ r" using trimEnd_prefix by blast
  from assms have tt: "trimEnd t = c # cs" by (simp add: trim_def trimStart_def t_def)
  with r have "t = c # cs @ r" by simp
  then have "t \<noteq> []" "hd t = c" by simp_all
  then show ?thesis unfolding t_def using hd_dropWhile [of isSpaceCh s] by metis
qed

lemma trim_last_not_space: "trim s \<noteq> [] \<Longrightarrow> \<not> isSpaceCh (last (trim s))"
  unfolding trim_def trimEnd_def using hd_dropWhile [of isSpaceCh "rev (trimStart s)"]
  by (simp add: last_rev)

lemma normalizeHour_nonempty: "ts \<noteq> [] \<Longrightarrow> normalizeHour ts \<noteq> []"
  by (auto simp: normalizeHour_def padStart_def split: option.splits)

lemma timeGroup1_Some:
  "timeGroup1 dot comma acc s = Some (a, b) \<Longrightarrow> acc @ s = a @ comma # b \<and> a \<noteq> [] \<and> b \<noteq> []"
proof (induction s arbitrary: acc)
  case Nil
  then show ?case by simp
next
  case (Cons c cs)
  show ?case
  proof (cases "acc \<noteq> [] \<and> c = comma \<and> timeGroup2 dot [] cs \<noteq> None")
    case True
    then obtain g where g: "timeGroup2 dot [] cs = Some g" by auto
    with True Cons.prems have "a = acc" "b = g" by simp_all
    moreover from g have "g = cs" "cs \<noteq> []" by (auto simp: timeGroup2_eq split: if_splits)
    ultimately show ?thesis using True by simp
  next
    case False
    with Cons.prems have "timeGroup1 dot comma (acc @ [c]) cs = Some (a, b)"
      by (auto split: if_splits option.splits)
    from Cons.IH [OF this] show ?thesis by simp
  qed
qed

lemma matchTimeLine_Some:
  "matchTimeLine t = Some (tm1, tm2) \<Longrightarrow> t = tm1 @ CHR '','' # tm2 \<and> tm1 \<noteq> [] \<and> tm2 \<noteq> []"
  using timeGroup1_Some [of isDotCh "CHR '',''" "[]" t tm1 tm2] by (simp add: matchTimeLine_def)

lemma matchTimeLine_fields_nonempty:
  assumes "matchTimeLine (trim l) = Some (tm1, tm2)"
  shows "normalizeHour (trim tm1) \<noteq> [] \<and> normalizeHour (trim tm2) \<noteq> []"
proof -
  from matchTimeLine_Some [OF assms]
  have t: "trim l = tm1 @ CHR '','' # tm2" and n1: "tm1 \<noteq> []" and n2: "tm2 \<noteq> []" by simp_all
  from n1 obtain c cs where tm1: "tm1 = c # cs" by (cases tm1) auto
  have "\<not> isSpaceCh c" using t trim_first_not_space [of l c "cs @ CHR '','' # tm2"] by (simp add: tm1)
  then have a: "trim tm1 \<noteq> []" by (auto simp: trim_eq_Nil tm1)
  have "last (trim l) = last tm2" using t n2 by simp
  moreover have "\<not> isSpaceCh (last (trim l))" using t trim_last_not_space [of l] by simp
  ultimately have "\<not> isSpaceCh (last tm2)" by simp
  moreover have "last tm2 \<in> set tm2" using n2 by simp
  ultimately have b: "trim tm2 \<noteq> []" by (auto simp: trim_eq_Nil)
  from a b show ?thesis by (simp add: normalizeHour_nonempty)
qed

lemma isBlank_Nil: "isBlank []"
  by (simp add: isBlank_def trim_def trimStart_def trimEnd_def)

lemma sbvLoop_cue:
  assumes "matchTimeLine (trim l) = Some (tm1, tm2)"
  shows "sbvLoop re (l # ls) vtt
     = sbvLoop re (dropWhile isBlank (dropWhile (\<lambda>x. \<not> isBlank x) ls))
         (vtt @ normalizeHour (trim tm1) @ '' --> '' @ normalizeHour (trim tm2) @ [LF]
            @ join [LF] (map (\<lambda>x. italicizeLineWholeWords x re) (takeWhile (\<lambda>x. \<not> isBlank x) ls))
            @ [LF, LF])"
proof -
  from assms have "trim l \<noteq> []" by (auto simp: matchTimeLine_def)
  with assms show ?thesis by (simp add: Let_def)
qed

lemma sbvLoop_after_block:
  assumes "matchTimeLine (trim t1) \<noteq> None" "list_all (\<lambda>x. \<not> isBlank x) xs1" "\<not> isBlank bad"
    "CHR '','' \<notin> set bad"
  shows "sbvLoop re (t1 # xs1 @ [] # bad # ls) vtt = sbvLoop re (t1 # xs1 @ [] # ls) vtt"
proof -
  from assms(1) obtain tm1 tm2 where m: "matchTimeLine (trim t1) = Some (tm1, tm2)" by auto
  have tw: "takeWhile (\<lambda>x. \<not> isBlank x) (xs1 @ [] # r) = xs1" for r
    using assms(2) by (simp add: takeWhile_append2 list_all_iff isBlank_Nil)
  have dw: "dropWhile (\<lambda>x. \<not> isBlank x) (xs1 @ [] # r) = [] # r" for r
    using assms(2) by (simp add: dropWhile_append2 list_all_iff isBlank_Nil)
  have bad: "matchTimeLine (trim bad) = None"
    using assms(4) set_trim [of bad] by (intro matchTimeLine_no_comma) auto
  have d1: "dropWhile isBlank ([] # bad # ls) = bad # ls"
    using assms(3) by (simp add: isBlank_Nil)
  have d2: "dropWhile isBlank ([] # ls) = dropWhile isBlank ls"
    by (simp add: isBlank_Nil)
  show ?thesis
    unfolding sbvLoop_cue [OF m] tw dw d1 d2
    by (simp only: sbvLoop_discard [OF bad] sbvLoop_skip_blanks)
qed

text \<open>
  Claim C6. A non-blank line without a comma at the head of the lines still to be read
  (the parser is seeking a time line) is dropped: the loop goes on with the next line
  and the same output so far. After a cue block and its blank separator, such a line
  leaves the result as if it were not there. The document of the specification's
  scenario gives its two cues in order.
\<close>

theorem malformed_time_line_discarded:
  "(\<not> isBlank bad \<and> CHR '','' \<notin> set bad \<longrightarrow>
      sbvLoop re (bad # ls) vtt = sbvLoop re ls vtt
      \<and> (matchTimeLine (trim t1) \<noteq> None \<and> list_all (\<lambda>x. \<not> isBlank x) xs1 \<longrightarrow>
           sbvLoop re (t1 # xs1 @ [] # bad # ls) vtt = sbvLoop re (t1 # xs1 @ [] # ls) vtt))
   \<and> sbvToVtt (''0:00:01.000,0:00:02.000'' @ [LF] @ ''One'' @ [LF, LF]
               @ ''not a time line'' @ [LF]
               @ ''0:00:03.000,0:00:04.000'' @ [LF] @ ''Two'' @ [LF]) None
       = ''WEBVTT'' @ [LF, LF]
          @ ''00:00:01.000 --> 00:00:02.000'' @ [LF] @ ''One'' @ [LF, LF]
          @ ''00:00:03.000 --> 00:00:04.000'' @ [LF] @ ''Two'' @ [LF]"
proof (intro conjI impI)
  assume a: "\<not> isBlank bad \<and> CHR '','' \<notin> set bad"
  then have "matchTimeLine (trim bad) = None"
    using set_trim [of bad] by (intro matchTimeLine_no_comma) auto
  then show "sbvLoop re (bad # ls) vtt = sbvLoop re ls vtt"
    by (rule sbvLoop_discard)
  assume "matchTimeLine (trim t1) \<noteq> None \<and> list_all (\<lambda>x. \<not> isBlank x) xs1"
  with a show "sbvLoop re (t1 # xs1 @ [] # bad # ls) vtt = sbvLoop re (t1 # xs1 @ [] # ls) vtt"
    by (simp add: sbvLoop_after_block del: sbvLoop.simps)
next
  show "sbvToVtt (''0:00:01.000,0:00:02.000'' @ [LF] @ ''One'' @ [LF, LF]
               @ ''not a time line'' @ [LF]
               @ ''0:00:03.000,0:00:04.000'' @ [LF] @ ''Two'' @ [LF]) None
       = ''WEBVTT'' @ [LF, LF]
          @ ''00:00:01.000 --> 00:00:02.000'' @ [LF] @ ''One'' @ [LF, LF]
          @ ''00:00:03.000 --> 00:00:04.000'' @ [LF] @ ''Two'' @ [LF]"
    by code_simp
qed

text \<open>Claim C6 at a concrete document.\<close>

theorem malformed_time_line_discarded_witness:
  "sbvLoop None [''no comma here'', ''0:00:01.000,0:00:02.000'', ''One''] ''WEBVTT''
     = sbvLoop None [''0:00:01.000,0:00:02.000'', ''One''] ''WEBVTT''
   \<and> sbvLoop None [''0:00:01.000,0:00:02.000'', ''One'', [], ''no comma here'', ''0:00:03.000,0:00:04.000'', ''Two''] []
     = sbvLoop None [''0:00:01.000,0:00:02.000'', ''One'', [], ''0:00:03.000,0:00:04.000'', ''Two''] []"
proof -
  have a: "\<not> isBlank ''no comma here'' \<and> CHR '','' \<notin> set ''no comma here''" by code_simp
  have b: "matchTimeLine (trim ''0:00:01.000,0:00:02.000'') \<noteq> None \<and> list_all (\<lambda>x. \<not> isBlank x) [''One'']"
    by code_simp
  show ?thesis
    using malformed_time_line_discarded [of "''no comma here''" None "[''0:00:01.000,0:00:02.000'', ''One'']" "''WEBVTT''" "''0:00:01.000,0:00:02.000''" "[''One'']"]
      malformed_time_line_discarded [of "''no comma here''" None "[''0:00:03.000,0:00:04.000'', ''Two'']" "[]" "''0:00:01.000,0:00:02.000''" "[''One'']"]
      a b
    by (simp del: sbvLoop.simps)
qed


text \<open>
  Claim C9, as the code has it. Over any alphabet, with \<open>dot\<close> the class of the dot
  (which holds the comma): the pattern matches a line exactly when the line is not
  empty, the dot accepts each of its characters, and there is a comma after its first
  character with something after the first such comma; the split is then at that comma,
  the first one that is not the first character, and the end field is everything after
  it, further commas included. So a line with no such comma, with nothing after it, or
  with a character the dot refuses (U+2028 or U+2029 inside the line) does not match.
  \<open>matchTimeLine\<close> is this pattern on the characters of the model. A trimmed line that
  does not match is dropped like a line without a comma, and a line that matches gives a
  cue whose two timestamp fields are not empty.
\<close>

theorem time_line_split_point:
  assumes "dot comma"
  shows "timeGroup1 dot comma [] t
      = (if t \<noteq> [] \<and> list_all dot t \<and> comma \<in> set (tl t)
            \<and> tl (dropWhile (\<lambda>x. x \<noteq> comma) (tl t)) \<noteq> []
         then Some (hd t # takeWhile (\<lambda>x. x \<noteq> comma) (tl t),
                    tl (dropWhile (\<lambda>x. x \<noteq> comma) (tl t)))
         else None)
    \<and> matchTimeLine s = timeGroup1 isDotCh CHR '','' [] s
    \<and> isDotCh CHR '',''
    \<and> (matchTimeLine (trim l) = None \<longrightarrow> sbvLoop re (l # ls) vtt = sbvLoop re ls vtt)
    \<and> (\<forall>tm1 tm2. matchTimeLine (trim l) = Some (tm1, tm2) \<longrightarrow>
          normalizeHour (trim tm1) \<noteq> [] \<and> normalizeHour (trim tm2) \<noteq> [] \<and>
          sbvLoop re (l # ls) vtt
            = sbvLoop re (dropWhile isBlank (dropWhile (\<lambda>x. \<not> isBlank x) ls))
                (vtt @ normalizeHour (trim tm1) @ '' --> '' @ normalizeHour (trim tm2) @ [LF]
                   @ join [LF] (map (\<lambda>x. italicizeLineWholeWords x re)
                                    (takeWhile (\<lambda>x. \<not> isBlank x) ls))
                   @ [LF, LF]))"
proof (intro conjI allI impI)
  show "timeGroup1 dot comma [] t
      = (if t \<noteq> [] \<and> list_all dot t \<and> comma \<in> set (tl t)
            \<and> tl (dropWhile (\<lambda>x. x \<noteq> comma) (tl t)) \<noteq> []
         then Some (hd t # takeWhile (\<lambda>x. x \<noteq> comma) (tl t),
                    tl (dropWhile (\<lambda>x. x \<noteq> comma) (tl t)))
         else None)"
    using assms by (rule timeGroup1_start)
next
  show "matchTimeLine s = timeGroup1 isDotCh CHR '','' [] s"
    by (simp add: matchTimeLine_def)
next
  show "isDotCh CHR '',''"
    by (simp add: isDotCh_def)
next
  assume "matchTimeLine (trim l) = None"
  then show "sbvLoop re (l # ls) vtt = sbvLoop re ls vtt" by (rule sbvLoop_discard)
next
  fix tm1 tm2
  assume m: "matchTimeLine (trim l) = Some (tm1, tm2)"
  from matchTimeLine_fields_nonempty [OF m]
  show "normalizeHour (trim tm1) \<noteq> []" and "normalizeHour (trim tm2) \<noteq> []" by simp_all
  show "sbvLoop re (l # ls) vtt
            = sbvLoop re (dropWhile isBlank (dropWhile (\<lambda>x. \<not> isBlank x) ls))
                (vtt @ normalizeHour (trim tm1) @ '' --> '' @ normalizeHour (trim tm2) @ [LF]
                   @ join [LF] (map (\<lambda>x. italicizeLineWholeWords x re)
                                    (takeWhile (\<lambda>x. \<not> isBlank x) ls))
                   @ [LF, LF])"
    using m by (rule sbvLoop_cue)
qed

text \<open>
  Claim C9 at concrete lines. On code points, with the four line terminators refused,
  the line \<open>a,b\<close> U+2028 \<open>c\<close> does not match. On the characters of the model, a line is
  split at its first comma, and a line with a trailing comma is dropped.
\<close>

theorem time_line_split_point_witness:
  "timeGroup1 (\<lambda>n :: nat. n \<noteq> 10 \<and> n \<noteq> 13 \<and> n \<noteq> 8232 \<and> n \<noteq> 8233) 44 []
      [97, 44, 98, 8232, 99] = None
   \<and> timeGroup1 (\<lambda>n :: nat. n \<noteq> 10 \<and> n \<noteq> 13 \<and> n \<noteq> 8232 \<and> n \<noteq> 8233) 44 []
      [97, 44, 98, 44, 99] = Some ([97], [98, 44, 99])
   \<and> matchTimeLine ''1:00,2:00,x'' = Some (''1:00'', ''2:00,x'')
   \<and> sbvLoop None ['' 1:00,2:00,x '', ''text''] ''W''
      = sbvLoop None [] (''W'' @ ''1:00'' @ '' --> '' @ ''2:00,x'' @ [LF] @ ''text'' @ [LF, LF])
   \<and> matchTimeLine ''0:00:01.000,'' = None
   \<and> sbvLoop None [''0:00:01.000,'', ''text''] ''W'' = sbvLoop None [''text''] ''W''"
proof -
  have d: "(\<lambda>n :: nat. n \<noteq> 10 \<and> n \<noteq> 13 \<and> n \<noteq> 8232 \<and> n \<noteq> 8233) 44" by simp
  have c: "isDotCh CHR '',''" by code_simp
  have b: "trim '' 1:00,2:00,x '' = ''1:00,2:00,x''" by code_simp
  have b': "trim ''0:00:01.000,'' = ''0:00:01.000,''" by code_simp
  have n: "normalizeHour (trim ''1:00'') = ''1:00''" "normalizeHour (trim ''2:00,x'') = ''2:00,x''"
    by code_simp+
  have t: "takeWhile (\<lambda>x. \<not> isBlank x) [''text''] = [''text'']"
    "dropWhile isBlank (dropWhile (\<lambda>x. \<not> isBlank x) [''text'']) = []"
    "italicizeLineWholeWords ''text'' None = ''text''"
    by code_simp+
  have l: "list_all isDotCh ''1:00,2:00,x''" "list_all isDotCh ''0:00:01.000,''" by code_simp+
  note u1 = time_line_split_point [where dot = "\<lambda>n :: nat. n \<noteq> 10 \<and> n \<noteq> 13 \<and> n \<noteq> 8232 \<and> n \<noteq> 8233" and comma = 44
      and t = "[97, 44, 98, 8232, 99]", OF d]
  note u2 = time_line_split_point [where dot = "\<lambda>n :: nat. n \<noteq> 10 \<and> n \<noteq> 13 \<and> n \<noteq> 8232 \<and> n \<noteq> 8233" and comma = 44
      and t = "[97, 44, 98, 44, 99]", OF d]
  note w1 = time_line_split_point [where dot = isDotCh and comma = "CHR '',''"
      and t = "''1:00,2:00,x''" and s = "''1:00,2:00,x''"
      and l = "'' 1:00,2:00,x ''" and re = None and ls = "[''text'']" and vtt = "''W''", OF c]
  note w2 = time_line_split_point [where dot = isDotCh and comma = "CHR '',''"
      and t = "''0:00:01.000,''" and s = "''0:00:01.000,''"
      and l = "''0:00:01.000,''" and re = None and ls = "[''text'']" and vtt = "''W''", OF c]
  have g1: "timeGroup1 (\<lambda>n :: nat. n \<noteq> 10 \<and> n \<noteq> 13 \<and> n \<noteq> 8232 \<and> n \<noteq> 8233) 44 []
      [97, 44, 98, 8232, 99] = None"
    using u1 by simp
  have g2: "timeGroup1 (\<lambda>n :: nat. n \<noteq> 10 \<and> n \<noteq> 13 \<and> n \<noteq> 8232 \<and> n \<noteq> 8233) 44 []
      [97, 44, 98, 44, 99] = Some ([97], [98, 44, 99])"
    using u2 by simp
  have m1: "matchTimeLine ''1:00,2:00,x'' = Some (''1:00'', ''2:00,x'')"
    using w1 l(1) by simp
  have m2: "matchTimeLine ''0:00:01.000,'' = None"
    using w2 l(2) by simp
  have s1: "sbvLoop None ['' 1:00,2:00,x '', ''text''] ''W''
      = sbvLoop None [] (''W'' @ ''1:00'' @ '' --> '' @ ''2:00,x'' @ [LF] @ ''text'' @ [LF, LF])"
    using w1 m1 unfolding b n t by (simp del: sbvLoop.simps add: n t)
  have s2: "sbvLoop None [''0:00:01.000,'', ''text''] ''W'' = sbvLoop None [''text''] ''W''"
    using w2 m2 unfolding b' by (simp del: sbvLoop.simps)
  from g1 g2 m1 s1 m2 s2 show ?thesis by (simp del: sbvLoop.simps)
qed

text \<open>
  Claim C9 as stated fails on a line that begins with a comma and has a second one:
  \<open>,a,b\<close> has nothing before its first comma and is not dropped, and the split is at
  the second comma.
\<close>

theorem time_line_leading_comma:
  "matchTimeLine (trim '',a,b'') = Some ('',a'', ''b'')
   \<and> sbvToVtt ('',a,b'' @ [LF] @ ''text'') None
       = ''WEBVTT'' @ [LF, LF] @ '',a --> b'' @ [LF] @ ''text'' @ [LF]"
  by code_simp

section \<open>The matcher\<close>

lemma matchTerms_le: "n \<in> set (matchTerms ts s) \<Longrightarrow> n \<le> length s"
proof (induction ts s arbitrary: n rule: matchTerms.induct)
  case (1 s)
  then show ?case by simp
next
  case (2 a ts)
  then show ?case by simp
next
  case (3 a ts c cs)
  then show ?case by (auto split: if_splits)
next
  case (4 a ts s)
  from "4.prems" obtain k m where k: "1 \<le> k" "k \<le> length (takeWhile (atomMatches a) s)"
    and m: "m \<in> set (matchTerms ts (drop k s))" and n: "n = k + m"
    by auto
  have "k \<in> set (rev [1..<Suc (length (takeWhile (atomMatches a) s))])" using k by auto
  from "4.IH" [OF this m] have "m \<le> length s - k" by simp
  moreover have "k \<le> length s" using k(2) length_takeWhile_le [of "atomMatches a" s] by simp
  ultimately show ?case using n by simp
qed

lemma find_SomeD: "find P xs = Some x \<Longrightarrow> x \<in> set xs \<and> P x"
  by (induction xs) (auto split: if_splits)

lemma matchPhrase_props:
  assumes "matchPhrase alts s = Some n"
  shows "n \<le> length s \<and> lookaheadOk (drop n s)"
proof -
  from assms have "n \<in> set (concat (map (\<lambda>alt. matchTerms alt s) alts))" and l: "lookaheadOk (drop n s)"
    unfolding matchPhrase_def by (auto dest: find_SomeD)
  then obtain alt where "n \<in> set (matchTerms alt s)" by auto
  then have "n \<le> length s" by (rule matchTerms_le)
  with l show ?thesis by simp
qed

lemma matchAt_props:
  assumes "matchAt alts i s = Some (b, n)"
  shows "b + n \<le> length s \<and> lookaheadOk (drop (b + n) s)
         \<and> ((b = 0 \<and> i = 0) \<or> (b = 1 \<and> s \<noteq> [] \<and> \<not> isWordCh (hd s)))"
proof (cases "(if i = 0 then matchPhrase alts s else None)")
  case (Some k)
  with assms have "b = 0" "n = k" "i = 0" "matchPhrase alts s = Some n"
    by (auto simp: matchAt_def split: if_splits)
  with matchPhrase_props [of alts s n] show ?thesis by simp
next
  case None
  with assms obtain c cs where s: "s = c # cs" and c: "\<not> isWordCh c"
    and m: "matchPhrase alts cs = Some n" and b: "b = 1"
    by (cases s) (auto simp: matchAt_def split: if_splits)
  with matchPhrase_props [OF m] show ?thesis by simp
qed

lemma execFrom_props:
  "execFrom alts line k = Some (i, b, n) \<Longrightarrow>
     k \<le> i \<and> i \<le> length line \<and> matchAt alts i (drop i line) = Some (b, n)"
proof (induction alts line k rule: execFrom.induct)
  case (1 alts line k)
  from "1.prems" have le: "\<not> length line < k"
    by (subst (asm) execFrom.simps) (simp split: if_splits)
  show ?case
  proof (cases "matchAt alts k (drop k line)")
    case None
    with "1.prems" le have rec: "execFrom alts line (Suc k) = Some (i, b, n)"
      by (subst (asm) execFrom.simps) simp
    from "1.IH" [OF le None rec] show ?thesis by simp
  next
    case (Some p)
    with "1.prems" le have "p = (b, n)" "i = k"
      by (subst (asm) execFrom.simps, cases p, simp)+
    with Some le show ?thesis by simp
  qed
qed

lemma matchAll_props:
  "(i, b, n) \<in> set (matchAll alts line k) \<Longrightarrow>
     k \<le> i \<and> i \<le> length line \<and> matchAt alts i (drop i line) = Some (b, n)"
proof (induction alts line k rule: matchAll.induct)
  case (1 alts line k)
  show ?case
  proof (cases "execFrom alts line k")
    case None
    with "1.prems" show ?thesis by (subst (asm) matchAll.simps) simp
  next
    case (Some x)
    obtain j c m where x: "x = (j, c, m)" by (cases x) auto
    from Some x execFrom_props [of alts line k j c m]
    have p: "k \<le> j" "j \<le> length line" "matchAt alts j (drop j line) = Some (c, m)" by simp_all
    from "1.prems" Some x
    have "(i, b, n) = (j, c, m) \<or>
          (i, b, n) \<in> set (matchAll alts line (if c + m = 0 then Suc (j + c + m) else j + c + m))"
      by (subst (asm) matchAll.simps) simp
    then show ?thesis
    proof
      assume "(i, b, n) = (j, c, m)"
      with p show ?thesis by simp
    next
      assume r: "(i, b, n) \<in> set (matchAll alts line (if c + m = 0 then Suc (j + c + m) else j + c + m))"
      have "(if c + m = 0 then Suc (j + c + m) else j + c + m) \<le> i \<and> i \<le> length line
            \<and> matchAt alts i (drop i line) = Some (b, n)"
        using "1.IH" [OF Some x [symmetric] refl r] .
      with p show ?thesis by (auto split: if_splits)
    qed
  qed
qed

lemma lookaheadOk_drop:
  "lookaheadOk (drop e line) \<longleftrightarrow> (length line \<le> e \<or> \<not> isWordCh (line ! e))"
proof (cases "e < length line")
  case True
  then have "drop e line = line ! e # drop (Suc e) line" by (simp add: Cons_nth_drop_Suc)
  with True show ?thesis by (simp add: lookaheadOk_def)
next
  case False
  then show ?thesis by (simp add: lookaheadOk_def)
qed


section \<open>The italicizer\<close>

lemma escapeHtml_Cons: "escapeHtml (c # s) = escapeHtmlCh c @ escapeHtml s"
  by (simp add: escapeHtml_def)

lemma escapeHtml_Nil: "escapeHtml [] = []"
  by (simp add: escapeHtml_def)

lemma escapeHtml_append: "escapeHtml (a @ b) = escapeHtml a @ escapeHtml b"
  by (simp add: escapeHtml_def)

lemma escapeHtmlCh_no_markup:
  "CHR ''<'' \<notin> set (escapeHtmlCh c) \<and> CHR ''>'' \<notin> set (escapeHtmlCh c)
   \<and> DQUOTE \<notin> set (escapeHtmlCh c) \<and> SQUOTE \<notin> set (escapeHtmlCh c)"
  by (simp add: escapeHtmlCh_def)

lemma escapeHtml_no_markup:
  "CHR ''<'' \<notin> set (escapeHtml s) \<and> CHR ''>'' \<notin> set (escapeHtml s)
   \<and> DQUOTE \<notin> set (escapeHtml s) \<and> SQUOTE \<notin> set (escapeHtml s)"
  using escapeHtmlCh_no_markup by (induction s) (simp_all add: escapeHtml_Cons escapeHtml_Nil)

lemma removeTags_plain:
  "CHR ''<'' \<notin> set a \<Longrightarrow> removeItalicsTags_spec (a @ r) = a @ removeItalicsTags_spec r"
  by (induction a) auto

lemma removeTags_open: "removeItalicsTags_spec (''<i>'' @ r) = removeItalicsTags_spec r"
  by simp

lemma removeTags_close: "removeItalicsTags_spec (''</i>'' @ r) = removeItalicsTags_spec r"
  by simp

lemma removeTags_escaped:
  "removeItalicsTags_spec (escapeHtml a @ r) = escapeHtml a @ removeItalicsTags_spec r"
  using escapeHtml_no_markup [of a] by (simp add: removeTags_plain)

lemma unescape_escapeHtmlCh:
  "unescapeHtml_spec (escapeHtmlCh c @ r) = c # unescapeHtml_spec r"
  by (simp add: escapeHtmlCh_def)

lemma unescape_escapeHtml: "unescapeHtml_spec (escapeHtml s) = s"
  by (induction s) (simp_all add: escapeHtml_Cons escapeHtml_Nil unescape_escapeHtmlCh del: unescapeHtml_spec.simps(2))

lemma slice_drop: "a \<le> b \<Longrightarrow> slice s a b @ drop b s = drop a s"
proof -
  assume "a \<le> b"
  then have "drop b s = drop (b - a) (drop a s)" by simp
  then show ?thesis unfolding slice_def by (simp only: append_take_drop_id)
qed

lemma italicizeLoop_out:
  "italicizeLoop line ms out k = out @ italicizeLoop line ms [] k"
proof (induction ms arbitrary: out k)
  case Nil
  show ?case by simp
next
  case (Cons m ms)
  obtain i b n where m: "m = (i, b, n)" by (cases m) auto
  show ?case
    unfolding m italicizeLoop.simps Let_def
    by (subst Cons.IH) (subst (2) Cons.IH, simp)
qed

lemma removeTags_loop:
  "k \<le> lastIndex \<Longrightarrow> k \<le> length line \<Longrightarrow>
     removeItalicsTags_spec (italicizeLoop line (matchAll alts line lastIndex) [] k)
       = escapeHtml (drop k line)"
proof (induction alts line lastIndex arbitrary: k rule: matchAll.induct)
  case (1 alts line lastIndex)
  show ?case
  proof (cases "execFrom alts line lastIndex")
    case None
    then have "matchAll alts line lastIndex = []" by (subst matchAll.simps) simp
    then show ?thesis
      using removeTags_escaped [of "drop k line" "[]"] by simp
  next
    case (Some x)
    obtain i b n where x: "x = (i, b, n)" by (cases x) auto
    define nxt where "nxt = (if b + n = 0 then Suc (i + b + n) else i + b + n)"
    from Some x execFrom_props [of alts line lastIndex i b n]
    have p: "lastIndex \<le> i" "i \<le> length line" "matchAt alts i (drop i line) = Some (b, n)"
      by simp_all
    from matchAt_props [OF p(3)] have "b + n \<le> length (drop i line)" by blast
    with p(2) have e: "i + b + n \<le> length line" by simp
    have ms: "matchAll alts line lastIndex = (i, b, n) # matchAll alts line nxt"
      using Some x by (subst matchAll.simps) (simp add: nxt_def)
    have ih: "removeItalicsTags_spec (italicizeLoop line (matchAll alts line nxt) [] (i + b + n))
        = escapeHtml (drop (i + b + n) line)"
      using "1.IH" [OF Some x [symmetric] refl, of "i + b + n"] e by (simp add: nxt_def)
    have k: "k \<le> i + b" using "1.prems"(1) p(1) by simp
    have "italicizeLoop line (matchAll alts line lastIndex) [] k
        = escapeHtml (slice line k (i + b)) @ ''<i>''
          @ escapeHtml (slice line (i + b) (i + b + n)) @ ''</i>''
          @ italicizeLoop line (matchAll alts line nxt) [] (i + b + n)"
      unfolding ms italicizeLoop.simps Let_def
      by (subst italicizeLoop_out) simp
    then have "removeItalicsTags_spec (italicizeLoop line (matchAll alts line lastIndex) [] k)
        = escapeHtml (slice line k (i + b)) @ escapeHtml (slice line (i + b) (i + b + n))
          @ escapeHtml (drop (i + b + n) line)"
      by (simp only: removeTags_escaped removeTags_open removeTags_close ih)
    also have "\<dots> = escapeHtml (slice line k (i + b) @ slice line (i + b) (i + b + n) @ drop (i + b + n) line)"
      by (simp only: escapeHtml_append)
    also have "slice line (i + b) (i + b + n) @ drop (i + b + n) line = drop (i + b) line"
      by (rule slice_drop) simp
    also have "slice line k (i + b) @ drop (i + b) line = drop k line"
      using k by (rule slice_drop)
    finally show ?thesis .
  qed
qed

lemma removeTags_italicize:
  "removeItalicsTags_spec (italicizeLineWholeWords line re) = escapeHtml line"
proof (cases re)
  case None
  then show ?thesis
    using removeTags_escaped [of line "[]"] by (simp add: italicizeLineWholeWords_def)
next
  case (Some alts)
  then show ?thesis
    using removeTags_loop [of 0 0 line alts] by (simp add: italicizeLineWholeWords_def)
qed


text \<open>
  Claim C3. Every match the italicizer wraps, with its phrase from \<open>i + b\<close> to
  \<open>i + b + n\<close>, starts at the start of the line or after a character that is not a
  letter or digit, and ends at the end of the line or before such a character; the
  output is built from exactly these matches. With the phrase \<open>art\<close>, nothing is wrapped
  in \<open>start\<close> and \<open>artistic\<close>, and \<open>art\<close> is wrapped in \<open>the art show\<close>, \<open>art show\<close>
  and \<open>modern art\<close>.
\<close>

theorem whole_word_boundaries:
  "(\<forall>(i, b, n) \<in> set (matchAll alts line 0).
      (i + b = 0 \<or> (0 < i + b \<and> i + b \<le> length line \<and> \<not> isWordCh (line ! (i + b - 1))))
      \<and> (i + b + n = length line
           \<or> (i + b + n < length line \<and> \<not> isWordCh (line ! (i + b + n)))))
   \<and> italicizeLineWholeWords line (Some alts) = italicizeLoop line (matchAll alts line 0) [] 0
   \<and> map (\<lambda>l. map_sum id (italicizeLineWholeWords l) (buildItalicsRegex [''art'']))
        [''start'', ''artistic'', ''the art show'', ''art show'', ''modern art'']
      = [Inr ''start'', Inr ''artistic'', Inr ''the <i>art</i> show'', Inr ''<i>art</i> show'',
         Inr ''modern <i>art</i>'']"
proof (intro conjI ballI)
  fix x
  assume x: "x \<in> set (matchAll alts line 0)"
  obtain i b n where xe: "x = (i, b, n)" by (cases x) auto
  from matchAll_props [of i b n alts line 0] x xe
  have il: "i \<le> length line" and m: "matchAt alts i (drop i line) = Some (b, n)" by simp_all
  from matchAt_props [OF m]
  have len: "b + n \<le> length (drop i line)"
    and la: "lookaheadOk (drop (b + n) (drop i line))"
    and bd: "(b = 0 \<and> i = 0) \<or> (b = 1 \<and> drop i line \<noteq> [] \<and> \<not> isWordCh (hd (drop i line)))"
    by blast+
  have left: "i + b = 0 \<or> (0 < i + b \<and> i + b \<le> length line \<and> \<not> isWordCh (line ! (i + b - 1)))"
  proof (cases "b = 0 \<and> i = 0")
    case True
    then show ?thesis by simp
  next
    case False
    with bd have b: "b = 1" and ne: "drop i line \<noteq> []" and nw: "\<not> isWordCh (hd (drop i line))"
      by auto
    from ne have "i < length line" by simp
    with nw b show ?thesis by (simp add: hd_drop_conv_nth)
  qed
  have "drop (b + n) (drop i line) = drop (i + b + n) line" by (simp add: add.commute add.left_commute)
  with la have "lookaheadOk (drop (i + b + n) line)" by (simp only:)
  then have "length line \<le> i + b + n \<or> \<not> isWordCh (line ! (i + b + n))"
    by (simp only: lookaheadOk_drop)
  moreover from len il have "i + b + n \<le> length line" by simp
  ultimately have right: "i + b + n = length line
      \<or> (i + b + n < length line \<and> \<not> isWordCh (line ! (i + b + n)))"
    by auto
  from left right show "case x of (i, b, n) \<Rightarrow>
      (i + b = 0 \<or> (0 < i + b \<and> i + b \<le> length line \<and> \<not> isWordCh (line ! (i + b - 1))))
      \<and> (i + b + n = length line
           \<or> (i + b + n < length line \<and> \<not> isWordCh (line ! (i + b + n))))"
    unfolding xe by simp
next
  show "italicizeLineWholeWords line (Some alts) = italicizeLoop line (matchAll alts line 0) [] 0"
    by (simp add: italicizeLineWholeWords_def)
next
  show "map (\<lambda>l. map_sum id (italicizeLineWholeWords l) (buildItalicsRegex [''art'']))
        [''start'', ''artistic'', ''the art show'', ''art show'', ''modern art'']
      = [Inr ''start'', Inr ''artistic'', Inr ''the <i>art</i> show'', Inr ''<i>art</i> show'',
         Inr ''modern <i>art</i>'']"
    by code_simp
qed

text \<open>Claim C3 at a concrete line: one match, a blank before it and a comma after it.\<close>

theorem whole_word_boundaries_witness:
  "matchAll [[Once (RChar CHR ''a''), Once (RChar CHR ''r''), Once (RChar CHR ''t'')]] ''an art, so'' 0
     = [(2, 1, 3)]
   \<and> \<not> isWordCh (''an art, so'' ! 2) \<and> \<not> isWordCh (''an art, so'' ! 6)"
proof -
  have m: "matchAll [[Once (RChar CHR ''a''), Once (RChar CHR ''r''), Once (RChar CHR ''t'')]] ''an art, so'' 0
     = [(2, 1, 3)]"
    by code_simp
  show ?thesis
    using whole_word_boundaries
      [of "[[Once (RChar CHR ''a''), Once (RChar CHR ''r''), Once (RChar CHR ''t'')]]" "''an art, so''"]
    unfolding m by simp
qed

text \<open>
  Claim C4. For every line and every matching rule, taking the \<open><i>\<close> and \<open></i>\<close>
  tags out of the italicizer's output leaves the escaped line: each of the five
  characters replaced by its entity, every other character as it is. The escaped line
  has no \<open><\<close>, \<open>>\<close> or quote, so every \<open><\<close> and \<open>>\<close> of the output belongs to a tag.
  The line \<open><script>\<close> comes out as \<open>&lt;script&gt;\<close>.
\<close>

theorem italicize_injection_safe:
  "removeItalicsTags_spec (italicizeLineWholeWords rawLine italicsRe) = escapeHtml rawLine
   \<and> escapeHtml rawLine = concat (map escapeHtmlCh rawLine)
   \<and> CHR ''<'' \<notin> set (escapeHtml rawLine) \<and> CHR ''>'' \<notin> set (escapeHtml rawLine)
   \<and> DQUOTE \<notin> set (escapeHtml rawLine) \<and> SQUOTE \<notin> set (escapeHtml rawLine)
   \<and> escapeHtmlCh CHR ''&'' = ''&amp;'' \<and> escapeHtmlCh CHR ''<'' = ''&lt;''
   \<and> escapeHtmlCh CHR ''>'' = ''&gt;'' \<and> escapeHtmlCh DQUOTE = ''&quot;''
   \<and> escapeHtmlCh SQUOTE = ''&#039;''
   \<and> (c \<notin> {CHR ''&'', CHR ''<'', CHR ''>'', DQUOTE, SQUOTE} \<longrightarrow> escapeHtmlCh c = [c])
   \<and> italicizeLineWholeWords ''<script>'' None = ''&lt;script&gt;''
   \<and> map_sum id (italicizeLineWholeWords ''<script>'') (buildItalicsRegex [''script''])
       = Inr ''&lt;<i>script</i>&gt;''"
proof -
  have "italicizeLineWholeWords ''<script>'' None = ''&lt;script&gt;''"
    by code_simp
  moreover have "map_sum id (italicizeLineWholeWords ''<script>'') (buildItalicsRegex [''script''])
       = Inr ''&lt;<i>script</i>&gt;''"
    by code_simp
  moreover have "c \<notin> {CHR ''&'', CHR ''<'', CHR ''>'', DQUOTE, SQUOTE} \<longrightarrow> escapeHtmlCh c = [c]"
    by (simp add: escapeHtmlCh_def)
  moreover have "escapeHtmlCh CHR ''&'' = ''&amp;''" "escapeHtmlCh CHR ''<'' = ''&lt;''"
    "escapeHtmlCh CHR ''>'' = ''&gt;''" "escapeHtmlCh DQUOTE = ''&quot;''"
    "escapeHtmlCh SQUOTE = ''&#039;''"
    by (simp_all add: escapeHtmlCh_def)
  ultimately show ?thesis
    using removeTags_italicize [of rawLine italicsRe] escapeHtml_no_markup [of rawLine]
    by (simp only: escapeHtml_def simp_thms)
qed

text \<open>Claim C4 at a line with markup and an ampersand, and at a plain character.\<close>

theorem italicize_injection_safe_witness:
  "removeItalicsTags_spec
     (italicizeLineWholeWords ''<b>art</b> & co''
        (Some [[Once (RChar CHR ''a''), Once (RChar CHR ''r''), Once (RChar CHR ''t'')]]))
     = ''&lt;b&gt;art&lt;/b&gt; &amp; co''
   \<and> escapeHtmlCh CHR ''x'' = ''x''"
proof -
  have e: "escapeHtml ''<b>art</b> & co'' = ''&lt;b&gt;art&lt;/b&gt; &amp; co''" by code_simp
  have n: "CHR ''x'' \<notin> {CHR ''&'', CHR ''<'', CHR ''>'', DQUOTE, SQUOTE}" by simp
  show ?thesis
    using italicize_injection_safe [of "''<b>art</b> & co''"
        "Some [[Once (RChar CHR ''a''), Once (RChar CHR ''r''), Once (RChar CHR ''t'')]]" "CHR ''x''"] n
    unfolding e by blast
qed

text \<open>
  Claim C10. For every line and every matching rule, the rule \<open>null\<close> included, taking
  the tags out of the output and decoding the five entities gives the line back.
\<close>

theorem italicize_round_trip:
  "unescapeHtml_spec (removeItalicsTags_spec (italicizeLineWholeWords rawLine italicsRe)) = rawLine"
  by (simp only: removeTags_italicize unescape_escapeHtml)

text \<open>Claim C10 at a concrete line.\<close>

theorem italicize_round_trip_witness:
  "unescapeHtml_spec (removeItalicsTags_spec ''Tom &amp; <i>Jerry</i> &lt;3'') = ''Tom & Jerry <3''"
proof -
  have e: "italicizeLineWholeWords ''Tom & Jerry <3''
      (Some [[Once (RChar CHR ''j''), Once (RChar CHR ''e''), Once (RChar CHR ''r''),
              Once (RChar CHR ''r''), Once (RChar CHR ''y'')]])
     = ''Tom &amp; <i>Jerry</i> &lt;3''"
    by code_simp
  show ?thesis
    using italicize_round_trip [of "''Tom & Jerry <3''"
      "Some [[Once (RChar CHR ''j''), Once (RChar CHR ''e''), Once (RChar CHR ''r''),
              Once (RChar CHR ''r''), Once (RChar CHR ''y'')]]"]
    unfolding e .
qed

section \<open>The pattern builder never fails\<close>

lemma replaceAll_same_gen: "rep = lit \<Longrightarrow> replaceAll lit rep s = s"
proof (induction lit rep s rule: replaceAll.induct)
  case (1 lit rep)
  show ?case by simp
next
  case (2 lit rep c cs)
  show ?case
  proof (cases "lit \<noteq> [] \<and> prefix lit (c # cs)")
    case True
    then obtain r where r: "c # cs = lit @ r" by (auto simp: prefix_def)
    from True "2.IH"(1) "2.prems"
    have ih: "replaceAll lit rep (drop (length lit) (c # cs)) = drop (length lit) (c # cs)"
      by simp
    have "replaceAll lit rep (c # cs) = rep @ replaceAll lit rep (drop (length lit) (c # cs))"
      using True by simp
    also have "\<dots> = lit @ drop (length lit) (c # cs)"
      using ih "2.prems" by (simp only:)
    also have "\<dots> = c # cs"
      unfolding r by simp
    finally show ?thesis .
  next
    case False
    with "2.IH"(2) "2.prems" show ?thesis by auto
  qed
qed

lemma replaceAll_same: "replaceAll lit lit s = s"
  by (rule replaceAll_same_gen) simp

lemma phraseSource_eq: "phraseSource p = escapeRegex (whitespaceToPattern (trim p))"
  by (simp add: phraseSource_def replaceAll_same)

lemma s_not_syntax: "\<not> isSyntaxCh CHR ''s''"
  by (simp add: isSyntaxCh_def)

lemma tokenize_escapeRegex:
  "tokenize (escapeRegex x @ r) = map_option ((@) (map TChar x)) (tokenize r)"
proof (induction x)
  case Nil
  show ?case by (simp add: escapeRegex_def option.map_ident)
next
  case (Cons c x)
  have e: "escapeRegex (c # x) = (if isSyntaxCh c then [BSL, c] else [c]) @ escapeRegex x"
    by (simp add: escapeRegex_def)
  show ?case
  proof (cases "isSyntaxCh c")
    case True
    then have "c \<noteq> CHR ''s''" using s_not_syntax by auto
    with True Cons.IH show ?thesis
      unfolding e by (simp add: option.map_comp comp_def)
  next
    case False
    then have "c \<noteq> BSL" "c \<noteq> CHR ''+''" "c \<noteq> CHR ''|''"
      by (auto simp: isSyntaxCh_def)
    with False Cons.IH show ?thesis
      unfolding e by (simp add: option.map_comp comp_def)
  qed
qed

lemma tokenize_join:
  "xs \<noteq> [] \<Longrightarrow>
     tokenize (join ''|'' (map escapeRegex xs)) = Some (join [TBar] (map (map TChar) xs))"
proof (induction xs rule: induct_list012)
  case 1
  then show ?case by simp
next
  case (2 x)
  show ?case using tokenize_escapeRegex [of x "[]"] by simp
next
  case (3 x y zs)
  have b: "\<not> (CHR ''|'' = BSL)" "\<not> (CHR ''|'' = CHR ''+'')" by simp_all
  from "3.IH"(2) have ih: "tokenize (join ''|'' (map escapeRegex (y # zs)))
      = Some (join [TBar] (map (map TChar) (y # zs)))" by simp
  have "tokenize (CHR ''|'' # join ''|'' (map escapeRegex (y # zs)))
      = Some (TBar # join [TBar] (map (map TChar) (y # zs)))"
    using ih by (simp del: join.simps)
  then show ?case
    using tokenize_escapeRegex [of x "CHR ''|'' # join ''|'' (map escapeRegex (y # zs))"]
    by simp
qed

lemma splitBars_nonempty: "splitBars ts \<noteq> []"
  by (induction ts) (auto simp: Let_def)

lemma splitBars_chars:
  "splitBars (map TChar x @ r) = (map TChar x @ hd (splitBars r)) # tl (splitBars r)"
  using splitBars_nonempty [of r] by (induction x) (auto simp: Let_def)

lemma splitBars_join:
  "xs \<noteq> [] \<Longrightarrow> splitBars (join [TBar] (map (map TChar) xs)) = map (map TChar) xs"
proof (induction xs rule: induct_list012)
  case 1
  then show ?case by simp
next
  case (2 x)
  show ?case using splitBars_chars [of x "[]"] by simp
next
  case (3 x y zs)
  from "3.IH"(2) have ih: "splitBars (join [TBar] (map (map TChar) (y # zs))) = map (map TChar) (y # zs)"
    by simp
  have "splitBars (TBar # join [TBar] (map (map TChar) (y # zs))) = [] # map (map TChar) (y # zs)"
    using ih by (simp del: join.simps)
  then show ?case
    using splitBars_chars [of x "TBar # join [TBar] (map (map TChar) (y # zs))"]
    by simp
qed

lemma parseTerms_chars: "parseTerms (map TChar x) = Some (map (\<lambda>c. Once (RChar c)) x)"
proof (induction x)
  case Nil
  show ?case by simp
next
  case (Cons c x)
  then show ?case by (cases x) simp_all
qed

lemma those_map_Some: "those (map (\<lambda>x. Some (f x)) xs) = Some (map f xs)"
  by (induction xs) simp_all

lemma those_parseTerms:
  "those (map parseTerms (map (map TChar) xs)) = Some (map (map (\<lambda>c. Once (RChar c))) xs)"
  by (induction xs) (simp_all add: parseTerms_chars)

lemma compileAlternation_escaped:
  assumes "xs \<noteq> []"
  shows "compileAlternation (join ''|'' (map escapeRegex xs))
     = Some (map (map (\<lambda>c. Once (RChar c))) xs)"
  unfolding compileAlternation_def
  by (simp only: tokenize_join [OF assms] splitBars_join [OF assms] those_parseTerms option.case)

lemma buildItalicsRegex_eq:
  assumes "phrases \<noteq> []"
  shows "buildItalicsRegex phrases
     = Inr (Some (map (\<lambda>p. map (\<lambda>c. Once (RChar c)) (whitespaceToPattern (trim p)))
                      (sort_key (\<lambda>p. - int (length p)) phrases)))"
proof -
  define sorted where "sorted = sort_key (\<lambda>p. - int (length p)) phrases"
  have "length sorted = length phrases" by (simp add: sorted_def)
  with assms have "sorted \<noteq> []" by auto
  then have ne: "map (\<lambda>p. whitespaceToPattern (trim p)) sorted \<noteq> []" by simp
  have "map phraseSource sorted = map escapeRegex (map (\<lambda>p. whitespaceToPattern (trim p)) sorted)"
    by (simp add: phraseSource_eq)
  then have "compileAlternation (join ''|'' (map phraseSource sorted))
      = Some (map (map (\<lambda>c. Once (RChar c))) (map (\<lambda>p. whitespaceToPattern (trim p)) sorted))"
    using compileAlternation_escaped [OF ne] by (simp only:)
  then show ?thesis
    using assms unfolding buildItalicsRegex_def Let_def sorted_def [symmetric]
    by (simp add: comp_def)
qed

text \<open>
  Claim C8. Every loop of the model is a function whose termination is proved, and the
  one step of the core that can raise, the construction of the pattern, never does: for
  every phrase list the source handed to \<open>new RegExp\<close> parses, since \<open>escapeRegex\<close>
  leaves no syntax character unescaped. So for every document and every phrase text the
  conversion returns a string; the empty document, a blank one and a malformed one give
  the header alone.
\<close>

theorem convert_total:
  "(\<exists>italicsRe. buildItalicsRegex phrases = Inr italicsRe)
   \<and> (\<exists>italicsRe. buildItalicsRegex (buildItalicsList italicsText) = Inr italicsRe
         \<and> convert sbvText italicsText = Inr (sbvToVtt sbvText italicsRe))
   \<and> convert [] [] = Inr (''WEBVTT'' @ [LF])
   \<and> convert ([CHR '' '', LF, CR, LF, CHR 0x09]) [LF, LF] = Inr (''WEBVTT'' @ [LF])
   \<and> convert ('','' @ [LF] @ ''x,'' @ [LF] @ ''<&>'') (''a|b('' @ [LF] @ [BSL])
        = Inr (''WEBVTT'' @ [LF])"
proof (intro conjI)
  have b: "\<exists>italicsRe. buildItalicsRegex ps = Inr italicsRe" for ps
  proof (cases "ps = []")
    case True
    then show ?thesis by (simp add: buildItalicsRegex_def)
  next
    case False
    then show ?thesis by (simp add: buildItalicsRegex_eq)
  qed
  show "\<exists>italicsRe. buildItalicsRegex phrases = Inr italicsRe" by (rule b)
  from b [of "buildItalicsList italicsText"]
  obtain re where re: "buildItalicsRegex (buildItalicsList italicsText) = Inr re" by blast
  then have "convert sbvText italicsText = Inr (sbvToVtt sbvText re)"
    by (simp add: convert_def)
  with re show "\<exists>italicsRe. buildItalicsRegex (buildItalicsList italicsText) = Inr italicsRe
         \<and> convert sbvText italicsText = Inr (sbvToVtt sbvText italicsRe)"
    by blast
next
  show "convert [] [] = Inr (''WEBVTT'' @ [LF])" by code_simp
next
  show "convert ([CHR '' '', LF, CR, LF, CHR 0x09]) [LF, LF] = Inr (''WEBVTT'' @ [LF])" by code_simp
next
  show "convert ('','' @ [LF] @ ''x,'' @ [LF] @ ''<&>'') (''a|b('' @ [LF] @ [BSL])
        = Inr (''WEBVTT'' @ [LF])" by code_simp
qed

end
